theory Spec2Isabelle
  imports Complex_Main "HOL-Library.Sublist"
begin

section \<open>JavaScript strings and numbers\<close>

text \<open>
  A JavaScript string is modelled as a \<^typ>\<open>string\<close>: one \<^typ>\<open>char\<close> stands for one
  UTF-16 code unit below 256.  Numbers that hold page numbers are modelled as \<^typ>\<open>int\<close> and
  the value \<open>NaN\<close> returned by \<open>parseInt\<close> as \<^const>\<open>None\<close>.  The page count
  \<open>maxPage\<close> comes from \<open>pdfDoc.getPageCount()\<close>; for page counts below \<open>2^53\<close> the
  comparisons of the source give the same answer on doubles as on the exact integers used here.
\<close>

definition is_ws :: "char \<Rightarrow> bool" where
  \<comment> \<open>WhiteSpace and LineTerminator code units below 256: TAB, LF, VT, FF, CR, SP, NBSP\<close>
  "is_ws c \<longleftrightarrow> c \<in> set [CHR 0x09, CHR 0x0A, CHR 0x0B, CHR 0x0C, CHR 0x0D, CHR '' '', CHR 0xA0]"

definition trim :: "string \<Rightarrow> string" where
  \<comment> \<open>\<open>String.prototype.trim\<close>\<close>
  "trim s = rev (dropWhile is_ws (rev (dropWhile is_ws s)))"

fun split_on :: "char \<Rightarrow> string \<Rightarrow> string list" where
  \<comment> \<open>\<open>String.prototype.split\<close> with a one-character separator; \<open>''''.split(sep)\<close> is \<open>['''']\<close>\<close>
  "split_on sep [] = [[]]"
| "split_on sep (c # cs) =
     (if c = sep then [] # split_on sep cs
      else (case split_on sep cs of p # ps \<Rightarrow> (c # p) # ps | [] \<Rightarrow> [[c]]))"

definition is_digit :: "char \<Rightarrow> bool" where
  "is_digit c \<longleftrightarrow> c \<in> set ''0123456789''"

definition digit_val :: "char \<Rightarrow> int" where
  "digit_val c = of_char c - 48"

definition dec_value :: "string \<Rightarrow> int" where
  "dec_value ds = foldl (\<lambda>a c. 10 * a + digit_val c) 0 ds"

definition parseInt :: "string \<Rightarrow> int option" where
  \<comment> \<open>\<open>parseInt(s, 10)\<close>: skip leading white space, take an optional sign, then the longest
      run of decimal digits; whatever follows the digits is ignored; no digit gives \<open>NaN\<close>\<close>
  "parseInt s =
     (let t = dropWhile is_ws s;
          (sign, u) = (case t of
                         [] \<Rightarrow> (1, [])
                       | c # r \<Rightarrow> if c = CHR ''-'' then (- 1, r)
                                  else if c = CHR ''+'' then (1, r) else (1, t));
          z = takeWhile is_digit u
      in if z = [] then None else Some (sign * dec_value z))"

section \<open>The range parser: \<open>parsePageRanges\<close>\<close>

text \<open>
  The two \<open>throw new Error\<close> statements of \<open>parsePageRanges\<close>: ``Invalid page range''
  and ``Invalid page number''.
\<close>

datatype parse_error = InvalidRange | InvalidPageNumber

definition set_add :: "int \<Rightarrow> int list \<Rightarrow> int list" where
  \<comment> \<open>\<open>Set.prototype.add\<close>; the list keeps the insertion order of the set\<close>
  "set_add v pages = (if v \<in> set pages then pages else pages @ [v])"

function add_range :: "int \<Rightarrow> int \<Rightarrow> int list \<Rightarrow> int list" where
  \<comment> \<open>\<open>for (let i = start; i <= end; i++) resultPages.add(i - 1)\<close>\<close>
  "add_range i e pages = (if i \<le> e then add_range (i + 1) e (set_add (i - 1) pages) else pages)"
  by pat_completeness auto
termination
  by (relation "measure (\<lambda>(i, e, pages). nat (e + 1 - i))") auto

declare add_range.simps [simp del]

definition process_part :: "string \<Rightarrow> int \<Rightarrow> int list \<Rightarrow> parse_error + int list" where
  \<comment> \<open>the body of the loop over \<open>parts\<close>, applied to \<open>trimmedPart\<close>.  The destructuring
      takes the first two pieces of the split.  A split with fewer than two pieces cannot
      arise for a part with a dash; the source would then read \<open>undefined\<close>, whose
      \<open>parseInt\<close> is \<open>NaN\<close>.\<close>
  "process_part trimmedPart maxPage resultPages =
     (if CHR ''-'' \<in> set trimmedPart then
        (case split_on CHR ''-'' trimmedPart of
           startStr # endStr # _ \<Rightarrow>
             (case parseInt startStr of
                None \<Rightarrow> Inl InvalidRange
              | Some start \<Rightarrow>
                 (case parseInt endStr of
                    None \<Rightarrow> Inl InvalidRange
                  | Some endp \<Rightarrow>
                      if start < 1 \<or> endp < start \<or> start > maxPage then Inl InvalidRange
                      else Inr (add_range start (min endp maxPage) resultPages)))
         | _ \<Rightarrow> Inl InvalidRange)
      else
        (case parseInt trimmedPart of
           None \<Rightarrow> Inl InvalidPageNumber
         | Some pageNum \<Rightarrow>
             if pageNum < 1 \<or> pageNum > maxPage then Inl InvalidPageNumber
             else Inr (set_add (pageNum - 1) resultPages)))"

fun process_parts :: "string list \<Rightarrow> int \<Rightarrow> int list \<Rightarrow> parse_error + int list" where
  "process_parts [] maxPage resultPages = Inr resultPages"
| "process_parts (part # parts) maxPage resultPages =
     (case process_part (trim part) maxPage resultPages of
        Inl err \<Rightarrow> Inl err
      | Inr pages \<Rightarrow> process_parts parts maxPage pages)"

definition parsePageRanges :: "string \<Rightarrow> int \<Rightarrow> parse_error + int list" where
  "parsePageRanges rangeStr maxPage =
     (if trim rangeStr = [] then Inr []
      else (case process_parts (split_on CHR '','' rangeStr) maxPage [] of
              Inl err \<Rightarrow> Inl err
            | Inr pages \<Rightarrow> Inr (sort pages)))"

definition splitPdf_rangeSegments :: "string \<Rightarrow> string list" where
  \<comment> \<open>\<open>options.rangesStr.split(',').map(s => s.trim()).filter(s => s)\<close> in \<open>splitPdf\<close>:
      the segments that \<open>splitPdf\<close> hands to \<open>parsePageRanges\<close>, one call for each\<close>
  "splitPdf_rangeSegments rangesStr =
     filter (\<lambda>s. s \<noteq> []) (map trim (split_on CHR '','' rangesStr))"

definition is_base10_integer :: "string \<Rightarrow> bool" where
  \<comment> \<open>Following the specification's words ``is a base-10 integer'': the whole text is an
      optional sign followed by one or more decimal digits and nothing else.  It is used only
      to state the specification's claims, never by the parser.\<close>
  "is_base10_integer s \<longleftrightarrow>
     (case s of
        [] \<Rightarrow> False
      | c # r \<Rightarrow> if c = CHR ''-'' \<or> c = CHR ''+'' then r \<noteq> [] \<and> list_all is_digit r
                 else list_all is_digit s)"

section \<open>The image page fit of \<open>convertImagesToPdf\<close>\<close>

text \<open>
  The layout arithmetic is done on JavaScript numbers, which are IEEE 754 binary64 doubles.
  A finite double is modelled by its exact rational value, next to the two infinities and
  \<open>NaN\<close>.  Every arithmetic operation of the source is the exact operation followed by
  rounding to the nearest double, ties to even, with overflow to an infinity and gradual
  underflow; \<open>binary64\<close> is that rounding.  The sign of zero is not modelled: for page
  dimensions that are positive and image dimensions that are not negative, no divisor of
  the block is a negative zero.
\<close>

datatype jsnum = Num rat | PosInf | NegInf | NaN

function bit_length :: "int \<Rightarrow> int" where
  \<comment> \<open>the number of binary digits of a positive integer\<close>
  "bit_length n = (if n \<le> 0 then 0 else 1 + bit_length (n div 2))"
  by pat_completeness auto
termination
  by (relation "measure nat") auto

declare bit_length.simps [simp del]

definition floor_log2 :: "rat \<Rightarrow> int" where
  \<comment> \<open>for \<open>0 < a\<close>, the integer \<open>e\<close> with \<open>2 ^ e \<le> a < 2 ^ (e + 1)\<close>\<close>
  "floor_log2 a =
     (if 1 \<le> a then bit_length \<lfloor>a\<rfloor> - 1 else - bit_length (\<lceil>1 / a\<rceil> - 1))"

definition round_half_even :: "rat \<Rightarrow> int" where
  "round_half_even s =
     (let q = \<lfloor>s\<rfloor>; f = s - of_int q
      in if 1 / 2 < f \<or> (f = 1 / 2 \<and> q mod 2 = 1) then q + 1 else q)"

definition binary64 :: "rat \<Rightarrow> jsnum" where
  \<comment> \<open>A double has 53 significant bits and its last bit weighs at least \<open>2 ^ - 1074\<close>:
      \<open>ex\<close> is the weight of the last bit, \<open>n\<close> the rounded significand.  The largest
      finite double is \<open>(2 ^ 53 - 1) * 2 ^ 971\<close>.\<close>
  "binary64 v =
     (if v = 0 then Num 0
      else
        let a = \<bar>v\<bar>;
            ex = max (floor_log2 a - 52) (- 1074);
            n = (if ex < 0 then round_half_even (a * 2 ^ nat (- ex))
                 else round_half_even (a / 2 ^ nat ex));
            r = (if ex < 0 then of_int n / 2 ^ nat (- ex) else of_int n * 2 ^ nat ex)
        in if 972 \<le> ex \<or> (ex = 971 \<and> 9007199254740992 \<le> n)
           then (if 0 < v then PosInf else NegInf)
           else Num (if 0 < v then r else - r))"

text \<open>
  The operations take the rounding of their finite results as a parameter: \<open>binary64\<close> for
  the doubles of the source, and \<open>Num\<close> (no rounding) where a statement is about exact
  arithmetic.
\<close>

fun js_neg :: "jsnum \<Rightarrow> jsnum" where
  "js_neg (Num a) = Num (- a)"
| "js_neg PosInf = NegInf"
| "js_neg NegInf = PosInf"
| "js_neg NaN = NaN"

fun js_add :: "(rat \<Rightarrow> jsnum) \<Rightarrow> jsnum \<Rightarrow> jsnum \<Rightarrow> jsnum" where
  "js_add rnd (Num a) (Num b) = rnd (a + b)"
| "js_add rnd NaN b = NaN"
| "js_add rnd a NaN = NaN"
| "js_add rnd PosInf NegInf = NaN"
| "js_add rnd NegInf PosInf = NaN"
| "js_add rnd PosInf b = PosInf"
| "js_add rnd NegInf b = NegInf"
| "js_add rnd (Num a) b = b"

definition js_sub :: "(rat \<Rightarrow> jsnum) \<Rightarrow> jsnum \<Rightarrow> jsnum \<Rightarrow> jsnum" where
  "js_sub rnd a b = js_add rnd a (js_neg b)"

fun js_mul :: "(rat \<Rightarrow> jsnum) \<Rightarrow> jsnum \<Rightarrow> jsnum \<Rightarrow> jsnum" where
  "js_mul rnd (Num a) (Num b) = rnd (a * b)"
| "js_mul rnd NaN b = NaN"
| "js_mul rnd a NaN = NaN"
| "js_mul rnd (Num a) b = (if a = 0 then NaN else if 0 < a then b else js_neg b)"
| "js_mul rnd a (Num b) = (if b = 0 then NaN else if 0 < b then a else js_neg a)"
| "js_mul rnd PosInf b = b"
| "js_mul rnd NegInf b = js_neg b"

fun js_div :: "(rat \<Rightarrow> jsnum) \<Rightarrow> jsnum \<Rightarrow> jsnum \<Rightarrow> jsnum" where
  "js_div rnd (Num a) (Num b) =
     (if b \<noteq> 0 then rnd (a / b)
      else if 0 < a then PosInf else if a < 0 then NegInf else NaN)"
| "js_div rnd NaN b = NaN"
| "js_div rnd a NaN = NaN"
| "js_div rnd (Num a) b = Num 0"
| "js_div rnd a (Num b) = (if 0 \<le> b then a else js_neg a)"
| "js_div rnd a b = NaN"

fun js_gt :: "jsnum \<Rightarrow> jsnum \<Rightarrow> bool" where
  "js_gt (Num a) (Num b) \<longleftrightarrow> b < a"
| "js_gt NaN b \<longleftrightarrow> False"
| "js_gt a NaN \<longleftrightarrow> False"
| "js_gt PosInf b \<longleftrightarrow> b \<noteq> PosInf"
| "js_gt a NegInf \<longleftrightarrow> a \<noteq> NegInf"
| "js_gt a b \<longleftrightarrow> False"

text \<open>The options record passed to \<open>page.drawImage\<close>.\<close>

record rectangle =
  rect_x :: jsnum
  rect_y :: jsnum
  rect_width :: jsnum
  rect_height :: jsnum

text \<open>
  The error kind that the specification names for the fit computation.  No statement of the
  source raises it: the computation below has no failing branch.
\<close>

datatype fit_error = MarginTooLarge

definition pageFit ::
  "(rat \<Rightarrow> jsnum) \<Rightarrow> jsnum \<Rightarrow> jsnum \<Rightarrow> jsnum \<Rightarrow> jsnum \<Rightarrow> jsnum \<Rightarrow> fit_error + rectangle" where
  \<comment> \<open>the block of \<open>convertImagesToPdf\<close> from \<open>availableWidth\<close> to the arguments of
      \<open>drawImage\<close>, with the local constant \<open>margin\<close> taken as a parameter\<close>
  "pageFit rnd imageWidth imageHeight pageWidth pageHeight margin =
     (let availableWidth = js_sub rnd pageWidth (js_mul rnd (Num 2) margin);
          availableHeight = js_sub rnd pageHeight (js_mul rnd (Num 2) margin);
          pageAspectRatio = js_div rnd availableWidth availableHeight;
          imageAspectRatio = js_div rnd imageWidth imageHeight;
          (drawWidth, drawHeight) =
            (if js_gt imageAspectRatio pageAspectRatio
             then (availableWidth, js_div rnd availableWidth imageAspectRatio)
             else (js_mul rnd availableHeight imageAspectRatio, availableHeight));
          x = js_add rnd margin (js_div rnd (js_sub rnd availableWidth drawWidth) (Num 2));
          y = js_add rnd margin (js_div rnd (js_sub rnd availableHeight drawHeight) (Num 2))
      in Inr \<lparr>rect_x = x, rect_y = y, rect_width = drawWidth, rect_height = drawHeight\<rparr>)"

definition computeFit ::
  "jsnum \<Rightarrow> jsnum \<Rightarrow> jsnum \<Rightarrow> jsnum \<Rightarrow> jsnum \<Rightarrow> fit_error + rectangle" where
  \<comment> \<open>the block as the source runs it, on doubles\<close>
  "computeFit = pageFit binary64"

definition computeFit_exact ::
  "jsnum \<Rightarrow> jsnum \<Rightarrow> jsnum \<Rightarrow> jsnum \<Rightarrow> jsnum \<Rightarrow> fit_error + rectangle" where
  \<comment> \<open>the same block over exact arithmetic: no operation rounds\<close>
  "computeFit_exact = pageFit Num"

definition convertImagesToPdf_fit ::
  "jsnum \<Rightarrow> jsnum \<Rightarrow> jsnum \<Rightarrow> jsnum \<Rightarrow> fit_error + rectangle" where
  \<comment> \<open>the source fixes \<open>const margin = 20\<close>\<close>
  "convertImagesToPdf_fit imageWidth imageHeight pageWidth pageHeight =
     computeFit imageWidth imageHeight pageWidth pageHeight (Num 20)"

section \<open>The page-number text of \<open>addPageNumbersToPdf\<close>\<close>

fun replace_first :: "string \<Rightarrow> string \<Rightarrow> string \<Rightarrow> string" where
  \<comment> \<open>\<open>String.prototype.replace\<close> with a string pattern: the match is the first position
      at which the pattern is a prefix of the rest.  The replacement is inserted as it is,
      which is what the source does for replacements free of \<open>$\<close>, as decimal numerals are.\<close>
  "replace_first pat rep [] = (if pat = [] then rep else [])"
| "replace_first pat rep (c # cs) =
     (if prefix pat (c # cs) then rep @ drop (length pat) (c # cs)
      else c # replace_first pat rep cs)"

definition digit_char :: "nat \<Rightarrow> char" where
  "digit_char d = char_of (48 + d)"

function toString :: "nat \<Rightarrow> string" where
  \<comment> \<open>\<open>Number.prototype.toString\<close> on a page number or a page count\<close>
  "toString n = (if n < 10 then [digit_char n] else toString (n div 10) @ [digit_char (n mod 10)])"
  by pat_completeness auto
termination
  by (relation "measure id") auto

declare toString.simps [simp del]

definition pageNumStr :: "string \<Rightarrow> nat \<Rightarrow> nat \<Rightarrow> string" where
  \<comment> \<open>\<open>options.format.replace('%p', (i + 1).toString()).replace('%t', totalPages.toString())\<close>
      for the page with index \<open>i\<close>\<close>
  "pageNumStr format i totalPages =
     replace_first ''%t'' (toString totalPages) (replace_first ''%p'' (toString (i + 1)) format)"

section \<open>Properties of the range parser\<close>

lemma set_set_add: "set (set_add v pages) = insert v (set pages)"
  by (auto simp: set_add_def)

lemma distinct_set_add: "distinct pages \<Longrightarrow> distinct (set_add v pages)"
  by (simp add: set_add_def)

lemma set_add_range: "set (add_range i e pages) = set pages \<union> {i - 1 .. e - 1}"
proof (induction i e pages rule: add_range.induct)
  case (1 i e pages)
  show ?case
  proof (cases "i \<le> e")
    case True
    then have "set (add_range i e pages) = set (set_add (i - 1) pages) \<union> {i + 1 - 1 .. e - 1}"
      using "1.IH" by (simp add: add_range.simps [of i])
    also have "\<dots> = set pages \<union> {i - 1 .. e - 1}"
      using True by (auto simp: set_set_add)
    finally show ?thesis .
  next
    case False
    then show ?thesis by (simp add: add_range.simps [of i])
  qed
qed

lemma distinct_add_range: "distinct pages \<Longrightarrow> distinct (add_range i e pages)"
proof (induction i e pages rule: add_range.induct)
  case (1 i e pages)
  then show ?case
    by (cases "i \<le> e") (simp_all add: add_range.simps [of i] distinct_set_add)
qed

lemma add_range_fresh:
  "set pages \<inter> {i - 1 .. e - 1} = {} \<Longrightarrow> add_range i e pages = pages @ [i - 1 .. e - 1]"
proof (induction i e pages rule: add_range.induct)
  case (1 i e pages)
  show ?case
  proof (cases "i \<le> e")
    case True
    have notin: "i - 1 \<notin> set pages" using "1.prems" True by auto
    have "set (set_add (i - 1) pages) \<inter> {i + 1 - 1 .. e - 1} = {}"
      using "1.prems" by (auto simp: set_set_add)
    then have "add_range (i + 1) e (set_add (i - 1) pages) = set_add (i - 1) pages @ [i + 1 - 1 .. e - 1]"
      using "1.IH" True by simp
    moreover have "[i - 1 .. e - 1] = (i - 1) # [i .. e - 1]"
      using True by (simp add: upto_rec1)
    ultimately show ?thesis
      using True notin by (simp add: add_range.simps [of i] set_add_def)
  next
    case False
    then show ?thesis by (simp add: add_range.simps [of i])
  qed
qed

lemma process_part_inv:
  assumes "process_part t maxPage pages = Inr r" "distinct pages"
  shows "distinct r \<and> set r \<subseteq> set pages \<union> {0 ..< maxPage}"
  using assms
  by (auto simp: process_part_def set_add_range set_set_add distinct_add_range distinct_set_add
           split: if_splits list.splits option.splits)

lemma process_parts_inv:
  "process_parts ps maxPage pages = Inr r \<Longrightarrow> distinct pages \<Longrightarrow>
     distinct r \<and> set r \<subseteq> set pages \<union> {0 ..< maxPage}"
proof (induction ps arbitrary: pages)
  case Nil
  then show ?case by simp
next
  case (Cons p ps)
  from Cons.prems(1) obtain q where q: "process_part (trim p) maxPage pages = Inr q"
    and r: "process_parts ps maxPage q = Inr r"
    by (auto split: sum.splits)
  from process_part_inv [OF q Cons.prems(2)]
  have dq: "distinct q" and sq: "set q \<subseteq> set pages \<union> {0 ..< maxPage}" by simp_all
  from Cons.IH [OF r dq] sq show ?case by auto
qed

lemma is_digit_not_special:
  "is_digit c \<Longrightarrow> \<not> is_ws c \<and> c \<noteq> CHR ''-'' \<and> c \<noteq> CHR ''+'' \<and> c \<noteq> CHR '',''"
  by (auto simp: is_digit_def is_ws_def)

lemma trim_id:
  "s \<noteq> [] \<Longrightarrow> \<not> is_ws (hd s) \<Longrightarrow> \<not> is_ws (last s) \<Longrightarrow> trim s = s"
proof -
  assume s: "s \<noteq> []" and h: "\<not> is_ws (hd s)" and l: "\<not> is_ws (last s)"
  from s h have "dropWhile is_ws s = s" by (cases s) simp_all
  moreover from s l have "dropWhile is_ws (rev s) = rev s"
    by (cases "rev s") (simp_all add: last_rev [symmetric] hd_rev)
  ultimately show ?thesis by (simp add: trim_def)
qed

lemma split_on_none: "sep \<notin> set s \<Longrightarrow> split_on sep s = [s]"
  by (induction s) auto

lemma split_on_one:
  "sep \<notin> set a \<Longrightarrow> sep \<notin> set b \<Longrightarrow> split_on sep (a @ sep # b) = [a, b]"
  by (induction a) (auto simp: split_on_none)

lemma parseInt_digits:
  assumes "ds \<noteq> []" "\<forall>c \<in> set ds. is_digit c"
  shows "parseInt ds = Some (dec_value ds)"
proof -
  from assms obtain c r where ds: "ds = c # r" and c: "is_digit c" by (cases ds) auto
  from c have "\<not> is_ws c" "c \<noteq> CHR ''-''" "c \<noteq> CHR ''+''"
    using is_digit_not_special by blast+
  moreover have "takeWhile is_digit ds = ds" using assms(2) by (simp add: takeWhile_eq_all_conv)
  ultimately show ?thesis using ds by (simp add: parseInt_def)
qed

lemma parse_single_digits:
  assumes "ds \<noteq> []" "\<forall>c \<in> set ds. is_digit c"
  shows "parsePageRanges ds maxPage =
           (if dec_value ds < 1 \<or> dec_value ds > maxPage then Inl InvalidPageNumber
            else Inr [dec_value ds - 1])"
proof -
  have nosp: "\<forall>c \<in> set ds. \<not> is_ws c \<and> c \<noteq> CHR ''-'' \<and> c \<noteq> CHR '',''"
    using assms(2) is_digit_not_special by blast
  have t: "trim ds = ds" using assms(1) nosp by (intro trim_id) simp_all
  have sp: "split_on CHR '','' ds = [ds]" using nosp by (intro split_on_none) blast
  have nd: "CHR ''-'' \<notin> set ds" using nosp by blast
  show ?thesis
    using assms(1) nd
    by (simp add: parsePageRanges_def t sp process_part_def parseInt_digits [OF assms] set_add_def)
qed

lemma parse_range_digits:
  assumes "ds \<noteq> []" "\<forall>c \<in> set ds. is_digit c" "de \<noteq> []" "\<forall>c \<in> set de. is_digit c"
  shows "parsePageRanges (ds @ ''-'' @ de) maxPage =
           (if dec_value ds < 1 \<or> dec_value de < dec_value ds \<or> dec_value ds > maxPage
            then Inl InvalidRange
            else Inr [dec_value ds - 1 .. min (dec_value de) maxPage - 1])"
proof -
  let ?s = "ds @ CHR ''-'' # de"
  have nosp: "\<forall>c \<in> set ds \<union> set de. \<not> is_ws c \<and> c \<noteq> CHR ''-'' \<and> c \<noteq> CHR '',''"
    using assms(2,4) is_digit_not_special by blast
  have "hd ?s = hd ds" "last ?s = last de" using assms(1,3) by simp_all
  moreover have "hd ds \<in> set ds" "last de \<in> set de" using assms(1,3) by simp_all
  ultimately have t: "trim ?s = ?s" using nosp by (intro trim_id) auto
  have sp: "split_on CHR '','' ?s = [?s]" using nosp by (intro split_on_none) auto
  have sd: "split_on CHR ''-'' ?s = [ds, de]"
    using nosp split_on_one [of "CHR ''-''" ds de] by auto
  have ar: "add_range a b [] = [a - 1 .. b - 1]" for a b
    using add_range_fresh [of "[]" a b] by simp
  show ?thesis
    by (simp add: parsePageRanges_def t sp sd process_part_def
        parseInt_digits [OF assms(1,2)] parseInt_digits [OF assms(3,4)] ar sorted_upto sorted_sort_id)
qed

subsection \<open>Range-end overflow is clamped, single-page overflow is rejected\<close>

text \<open>
  Claim C1.  Against a 10-page document \<open>parse(''1-100'', 10)\<close> returns the indices
  \<open>0, \<dots>, 9\<close> and \<open>parse(''101'', 10)\<close> fails with \<open>InvalidPageNumber\<close>.  In general,
  for every page count of at least 1, a range written with two decimal numerals whose start
  lies in the document and whose end lies beyond it is accepted and truncated at the last
  page, while a single decimal numeral beyond the page count is rejected.
\<close>

theorem range_end_clamped_single_page_rejected:
  "parsePageRanges ''1-100'' 10 = Inr [0, 1, 2, 3, 4, 5, 6, 7, 8, 9]
   \<and> parsePageRanges ''101'' 10 = Inl InvalidPageNumber
   \<and> (\<forall>totalPages ds de.
         1 \<le> totalPages \<and> ds \<noteq> [] \<and> de \<noteq> []
         \<and> (\<forall>c \<in> set ds. is_digit c) \<and> (\<forall>c \<in> set de. is_digit c)
         \<and> 1 \<le> dec_value ds \<and> dec_value ds \<le> totalPages \<and> totalPages < dec_value de
         \<longrightarrow> parsePageRanges (ds @ ''-'' @ de) totalPages
               = Inr [dec_value ds - 1 .. totalPages - 1])
   \<and> (\<forall>totalPages ds.
         1 \<le> totalPages \<and> ds \<noteq> [] \<and> (\<forall>c \<in> set ds. is_digit c) \<and> totalPages < dec_value ds
         \<longrightarrow> parsePageRanges ds totalPages = Inl InvalidPageNumber)"
proof (intro conjI allI impI)
  show "parsePageRanges ''1-100'' 10 = Inr [0, 1, 2, 3, 4, 5, 6, 7, 8, 9]"
    by code_simp
  show "parsePageRanges ''101'' 10 = Inl InvalidPageNumber"
    by code_simp
next
  fix totalPages ds de
  assume h: "1 \<le> totalPages \<and> ds \<noteq> [] \<and> de \<noteq> []
         \<and> (\<forall>c \<in> set ds. is_digit c) \<and> (\<forall>c \<in> set de. is_digit c)
         \<and> 1 \<le> dec_value ds \<and> dec_value ds \<le> totalPages \<and> totalPages < dec_value de"
  then have "parsePageRanges (ds @ ''-'' @ de) totalPages =
           (if dec_value ds < 1 \<or> dec_value de < dec_value ds \<or> dec_value ds > totalPages
            then Inl InvalidRange
            else Inr [dec_value ds - 1 .. min (dec_value de) totalPages - 1])"
    by (intro parse_range_digits) simp_all
  with h show "parsePageRanges (ds @ ''-'' @ de) totalPages = Inr [dec_value ds - 1 .. totalPages - 1]"
    by (simp add: min_def)
next
  fix totalPages ds
  assume h: "1 \<le> totalPages \<and> ds \<noteq> [] \<and> (\<forall>c \<in> set ds. is_digit c) \<and> totalPages < dec_value ds"
  then have "parsePageRanges ds totalPages =
           (if dec_value ds < 1 \<or> dec_value ds > totalPages then Inl InvalidPageNumber
            else Inr [dec_value ds - 1])"
    by (intro parse_single_digits) simp_all
  with h show "parsePageRanges ds totalPages = Inl InvalidPageNumber" by simp
qed

theorem range_end_clamped_single_page_rejected_witness:
  "parsePageRanges ''3-250'' 7 = Inr [2, 3, 4, 5, 6] \<and> parsePageRanges ''8'' 7 = Inl InvalidPageNumber"
proof -
  note main = range_end_clamped_single_page_rejected
  have d: "dec_value ''3'' = 3" "dec_value ''250'' = 250" "dec_value ''8'' = 8"
    by (simp_all add: dec_value_def digit_val_def)
  have a: "parsePageRanges (''3'' @ ''-'' @ ''250'') 7 = Inr [dec_value ''3'' - 1 .. 7 - 1]"
    by (rule main [THEN conjunct2, THEN conjunct2, THEN conjunct1, rule_format])
       (simp add: is_digit_def d)
  have b: "parsePageRanges ''8'' 7 = Inl InvalidPageNumber"
    by (rule main [THEN conjunct2, THEN conjunct2, THEN conjunct2, rule_format])
       (simp add: is_digit_def d)
  have "[dec_value ''3'' - 1 .. 7 - 1] = [2, 3, 4, 5, 6]"
    by (simp add: d upto_rec1)
  with a b show ?thesis by simp
qed

subsection \<open>The result is strictly ascending, duplicate free and in bounds\<close>

text \<open>
  Claim C2.  Whenever \<open>parse\<close> succeeds, for any expression and any page count of at
  least 1, the returned indices are strictly ascending, pairwise distinct and each lies in
  \<open>0 \<le> i < totalPages\<close>; in particular \<open>parse(''1,1,2'', 5)\<close> returns \<open>[0, 1]\<close>.
\<close>

theorem parse_sorted_distinct_bounded:
  "(\<forall>expr totalPages r. 1 \<le> totalPages \<and> parsePageRanges expr totalPages = Inr r \<longrightarrow>
     sorted_wrt (<) r \<and> distinct r \<and> (\<forall>i \<in> set r. 0 \<le> i \<and> i < totalPages))
   \<and> parsePageRanges ''1,1,2'' 5 = Inr [0, 1]"
proof -
  have general: "sorted_wrt (<) r \<and> distinct r \<and> (\<forall>i \<in> set r. 0 \<le> i \<and> i < totalPages)"
    if a: "parsePageRanges expr totalPages = Inr r" for expr totalPages r
  proof (cases "trim expr = []")
    case True
    with a show ?thesis by (simp add: parsePageRanges_def)
  next
    case False
    with a obtain q where q: "process_parts (split_on CHR '','' expr) totalPages [] = Inr q"
      and r: "r = sort q"
      by (auto simp: parsePageRanges_def split: sum.splits)
    from process_parts_inv [OF q] have "distinct q" "set q \<subseteq> {0 ..< totalPages}" by simp_all
    with r show ?thesis by (auto simp: strict_sorted_iff)
  qed
  have example: "parsePageRanges ''1,1,2'' 5 = Inr [0, 1]" by code_simp
  from general example show ?thesis by blast
qed

theorem parse_sorted_distinct_bounded_witness:
  "parsePageRanges '' 7-9 , 1-3,5, 2 '' 10 = Inr [0, 1, 2, 4, 6, 7, 8]
   \<and> sorted_wrt (<) [0, 1, 2, 4, 6, 7, 8 :: int] \<and> distinct [0, 1, 2, 4, 6, 7, 8 :: int]
   \<and> set [0, 1, 2, 4, 6, 7, 8 :: int] \<subseteq> {0 ..< 10}"
proof -
  have p: "parsePageRanges '' 7-9 , 1-3,5, 2 '' 10 = Inr [0, 1, 2, 4, 6, 7, 8]" by code_simp
  have "(1::int) \<le> 10" by simp
  with p parse_sorted_distinct_bounded
  have "sorted_wrt (<) [0, 1, 2, 4, 6, 7, 8 :: int] \<and> distinct [0, 1, 2, 4, 6, 7, 8 :: int]
    \<and> (\<forall>i \<in> set [0, 1, 2, 4, 6, 7, 8 :: int]. 0 \<le> i \<and> i < 10)"
    by blast
  with p show ?thesis by auto
qed

subsection \<open>Empty segments\<close>

text \<open>
  Claim C3.  \<open>parse\<close> splits the expression on commas, trims each segment and discards
  the empty segments, so that an expression with empty segments, such as \<open>''1,,2''\<close> or
  \<open>''1,2,''\<close>, gives the result of the expression without them and raises no error.
  The split path of the same file does this: \<open>splitPdf\<close> filters the empty segments out
  before it hands the segments to the parser.  The loop of \<open>parsePageRanges\<close> misses the
  step: an empty segment reaches \<open>parseInt\<close>, which returns \<open>NaN\<close>, and the call
  fails.  The theorem runs the parser on both expressions and on \<open>''1,2''\<close>, and the
  filter of \<open>splitPdf\<close> on both.
\<close>

theorem empty_segment_not_discarded:
  "parsePageRanges ''1,,2'' 5 = Inl InvalidPageNumber
   \<and> parsePageRanges ''1,2,'' 5 = Inl InvalidPageNumber
   \<and> parsePageRanges ''1,2'' 5 = Inr [0, 1]
   \<and> splitPdf_rangeSegments ''1,,2'' = [''1'', ''2'']
   \<and> splitPdf_rangeSegments ''1,2,'' = [''1'', ''2'']"
  by code_simp

subsection \<open>Segments with a dash\<close>

text \<open>
  Claim C5.  A segment with a dash fails with \<open>InvalidRange\<close> if and only if either
  token does not parse as a base-10 integer, or \<open>start < 1\<close>, or \<open>end < start\<close>, or
  \<open>start > totalPages\<close>; otherwise the end is clamped to the page count and the indices
  \<open>start - 1\<close> to \<open>end - 1\<close> are added.  The source checks the tokens with
  \<open>isNaN(parseInt(token, 10))\<close>, its documentation says that it throws when the range is
  invalid and its message asks to check the format.  The check misses a case:
  \<open>parseInt\<close> stops at the first character that is not a digit, and the destructuring
  reads only the first two pieces of the split.  The theorem runs the parser on
  \<open>''1-5abc''\<close>, whose second token is not a base-10 integer, and on \<open>''1-2-3''\<close>: both
  are accepted where the claim calls for \<open>InvalidRange\<close>.
\<close>

theorem trailing_text_after_range_accepted:
  "split_on CHR ''-'' ''1-5abc'' = [''1'', ''5abc''] \<and> \<not> is_base10_integer ''5abc''
   \<and> parsePageRanges ''1-5abc'' 10 = Inr [0, 1, 2, 3, 4]
   \<and> parsePageRanges ''1-2-3'' 10 = Inr [0, 1]"
  by code_simp

subsection \<open>Segments without a dash\<close>

text \<open>
  Claim C6.  A segment without a dash fails with \<open>InvalidPageNumber\<close> if and only if it
  is not a base-10 integer or its value is outside \<open>[1, totalPages]\<close>; otherwise
  \<open>value - 1\<close> is added.  The source checks the segment with
  \<open>isNaN(parseInt(trimmedPart, 10))\<close>, which misses the same case as for the tokens of
  a range.  The theorem runs the parser on \<open>''5abc''\<close>, \<open>''1.5''\<close> and \<open>''1 3''\<close>:
  none is a base-10 integer, and each is accepted as a page where the claim calls for
  \<open>InvalidPageNumber\<close>.
\<close>

theorem trailing_text_after_page_accepted:
  "CHR ''-'' \<notin> set ''5abc'' \<and> \<not> is_base10_integer ''5abc''
   \<and> parsePageRanges ''5abc'' 10 = Inr [4]
   \<and> \<not> is_base10_integer ''1.5'' \<and> parsePageRanges ''1.5'' 10 = Inr [0]
   \<and> \<not> is_base10_integer ''1 3'' \<and> parsePageRanges ''1 3'' 10 = Inr [0]"
  by code_simp

section \<open>Properties of the image page fit\<close>

subsection \<open>The rounding on known values\<close>

text \<open>
  The doubles nearest to \<open>1/10\<close> and \<open>1/3\<close>, two ties that go to the even significand,
  a value that needs no rounding, and the two sides of the overflow threshold
  \<open>2 ^ 1024 - 2 ^ 970\<close>.
\<close>

lemma binary64_known_values:
  "binary64 (1 / 10) = Num (3602879701896397 / 36028797018963968)
   \<and> binary64 (1 / 3) = Num (6004799503160661 / 18014398509481984)
   \<and> binary64 9007199254740993 = Num 9007199254740992
   \<and> binary64 (- 9007199254740995) = Num (- 9007199254740996)
   \<and> binary64 560 = Num 560"
  by code_simp

lemma binary64_largest_finite:
  "binary64 179769313486231580793728971405303415079934132710037826936173778980444968292764750946649017977587207096330286416692887910946555547851940402630657488671505820681908902000708383676273854845817711531764475730270069855571366959622842914819860834936475292719074168444365510704342711559699508093042880177904174497791 =
     Num 179769313486231570814527423731704356798070567525844996598917476803157260780028538760589558632766878171540458953514382464234321326889464182768467546703537516986049910576551282076245490090389328944075868508455133942304583236903222948165808559332123348274797826204144723168738177180919299881250404026184124858368"
  by code_simp

lemma binary64_overflow:
  "binary64 (- 179769313486231580793728971405303415079934132710037826936173778980444968292764750946649017977587207096330286416692887910946555547851940402630657488671505820681908902000708383676273854845817711531764475730270069855571366959622842914819860834936475292719074168444365510704342711559699508093042880177904174497792) = NegInf"
  by code_simp

lemma binary64_zero: "binary64 0 = Num 0"
  by (simp add: binary64_def)

lemma js_gt_irrefl: "\<not> js_gt a a"
  by (cases a) simp_all

subsection \<open>The block on doubles and over exact arithmetic\<close>

lemma computeFit_unfold:
  "computeFit imageWidth imageHeight pageWidth pageHeight margin =
     (let availableWidth = js_sub binary64 pageWidth (js_mul binary64 (Num 2) margin);
          availableHeight = js_sub binary64 pageHeight (js_mul binary64 (Num 2) margin);
          imageAspectRatio = js_div binary64 imageWidth imageHeight;
          pageAspectRatio = js_div binary64 availableWidth availableHeight;
          drawWidth = (if js_gt imageAspectRatio pageAspectRatio then availableWidth
                       else js_mul binary64 availableHeight imageAspectRatio);
          drawHeight = (if js_gt imageAspectRatio pageAspectRatio
                        then js_div binary64 availableWidth imageAspectRatio
                        else availableHeight)
      in Inr \<lparr>rect_x = js_add binary64 margin
                        (js_div binary64 (js_sub binary64 availableWidth drawWidth) (Num 2)),
                rect_y = js_add binary64 margin
                        (js_div binary64 (js_sub binary64 availableHeight drawHeight) (Num 2)),
                rect_width = drawWidth, rect_height = drawHeight\<rparr>)"
  by (simp add: computeFit_def pageFit_def Let_def)

lemma centre_offset_tight:
  assumes "binary64 m = Num m"
  shows "js_add binary64 (Num m) (js_div binary64 (js_sub binary64 (Num a) (Num a)) (Num 2)) = Num m"
  using assms by (simp add: js_sub_def binary64_zero)

lemma computeFit_exact_finite:
  assumes "iw \<noteq> 0" "ih \<noteq> 0" "ph - 2 * m \<noteq> 0"
  shows "computeFit_exact (Num iw) (Num ih) (Num pw) (Num ph) (Num m) =
           (if (pw - 2 * m) / (ph - 2 * m) < iw / ih
            then Inr \<lparr>rect_x = Num (m + ((pw - 2 * m) - (pw - 2 * m)) / 2),
                      rect_y = Num (m + ((ph - 2 * m) - (pw - 2 * m) / (iw / ih)) / 2),
                      rect_width = Num (pw - 2 * m),
                      rect_height = Num ((pw - 2 * m) / (iw / ih))\<rparr>
            else Inr \<lparr>rect_x = Num (m + ((pw - 2 * m) - (ph - 2 * m) * (iw / ih)) / 2),
                      rect_y = Num (m + ((ph - 2 * m) - (ph - 2 * m)) / 2),
                      rect_width = Num ((ph - 2 * m) * (iw / ih)),
                      rect_height = Num (ph - 2 * m)\<rparr>)"
  using assms by (simp add: computeFit_exact_def pageFit_def js_sub_def Let_def)


lemma equal_aspect_doubles:
  assumes m: "binary64 m = Num m"
    and aw: "js_sub binary64 pw (js_mul binary64 (Num 2) (Num m)) = Num a"
    and ah: "js_sub binary64 ph (js_mul binary64 (Num 2) (Num m)) = Num b"
    and nz: "ih \<noteq> 0" "b \<noteq> 0" and eq: "iw / ih = a / b"
  shows "computeFit (Num iw) (Num ih) pw ph (Num m) =
           Inr \<lparr>rect_x = js_add binary64 (Num m)
                   (js_div binary64
                      (js_sub binary64 (Num a) (js_mul binary64 (Num b) (binary64 (iw / ih))))
                      (Num 2)),
                 rect_y = Num m,
                 rect_width = js_mul binary64 (Num b) (binary64 (iw / ih)),
                 rect_height = Num b\<rparr>"
proof -
  have same: "js_div binary64 (Num a) (Num b) = js_div binary64 (Num iw) (Num ih)"
    using nz eq by simp
  have ia: "js_div binary64 (Num iw) (Num ih) = binary64 (iw / ih)" using nz by simp
  show ?thesis
    unfolding computeFit_unfold aw ah Let_def same
    by (simp add: js_gt_irrefl centre_offset_tight [OF m] ia del: js_div.simps)
qed

subsection \<open>Contain fitting\<close>

text \<open>
  Claim C7.  The fit is a ``contain'' fit: with \<open>availableWidth = pageWidth - 2 * margin\<close>
  and \<open>availableHeight = pageHeight - 2 * margin\<close>, an image whose aspect ratio exceeds
  that of the available area is drawn at the full available width with the height derived
  from the image aspect ratio, any other image at the full available height with the width
  derived; the rectangle is centred in the available area on both axes.  For a 200 by 100
  image on a 600 by 800 page with margin 20 the result is width 560, height 280, x 20, y 260.
  The first part states the branch and the assignments over exact arithmetic, the last part
  states them for every input on the doubles of the source, and the example is evaluated
  on both.
\<close>

theorem contain_fit:
  "(\<forall>iw ih pw ph m. 0 < iw \<and> 0 < ih \<and> ph - 2 * m \<noteq> 0 \<longrightarrow>
      computeFit_exact (Num iw) (Num ih) (Num pw) (Num ph) (Num m) =
        (let availableWidth = pw - 2 * m; availableHeight = ph - 2 * m;
             drawWidth = (if availableWidth / availableHeight < iw / ih then availableWidth
                          else availableHeight * (iw / ih));
             drawHeight = (if availableWidth / availableHeight < iw / ih
                           then availableWidth / (iw / ih) else availableHeight)
         in Inr \<lparr>rect_x = Num (m + (availableWidth - drawWidth) / 2),
                   rect_y = Num (m + (availableHeight - drawHeight) / 2),
                   rect_width = Num drawWidth, rect_height = Num drawHeight\<rparr>))
   \<and> computeFit (Num 200) (Num 100) (Num 600) (Num 800) (Num 20) =
        Inr \<lparr>rect_x = Num 20, rect_y = Num 260, rect_width = Num 560, rect_height = Num 280\<rparr>
   \<and> computeFit_exact (Num 200) (Num 100) (Num 600) (Num 800) (Num 20) =
        Inr \<lparr>rect_x = Num 20, rect_y = Num 260, rect_width = Num 560, rect_height = Num 280\<rparr>
   \<and> (\<forall>imageWidth imageHeight pageWidth pageHeight margin.
        computeFit imageWidth imageHeight pageWidth pageHeight margin =
          (let availableWidth = js_sub binary64 pageWidth (js_mul binary64 (Num 2) margin);
               availableHeight = js_sub binary64 pageHeight (js_mul binary64 (Num 2) margin);
               imageAspectRatio = js_div binary64 imageWidth imageHeight;
               pageAspectRatio = js_div binary64 availableWidth availableHeight;
               drawWidth = (if js_gt imageAspectRatio pageAspectRatio then availableWidth
                            else js_mul binary64 availableHeight imageAspectRatio);
               drawHeight = (if js_gt imageAspectRatio pageAspectRatio
                             then js_div binary64 availableWidth imageAspectRatio
                             else availableHeight)
           in Inr \<lparr>rect_x = js_add binary64 margin
                             (js_div binary64 (js_sub binary64 availableWidth drawWidth) (Num 2)),
                     rect_y = js_add binary64 margin
                             (js_div binary64 (js_sub binary64 availableHeight drawHeight) (Num 2)),
                     rect_width = drawWidth, rect_height = drawHeight\<rparr>))"
proof -
  have general: "computeFit_exact (Num iw) (Num ih) (Num pw) (Num ph) (Num m) =
        (let availableWidth = pw - 2 * m; availableHeight = ph - 2 * m;
             drawWidth = (if availableWidth / availableHeight < iw / ih then availableWidth
                          else availableHeight * (iw / ih));
             drawHeight = (if availableWidth / availableHeight < iw / ih
                           then availableWidth / (iw / ih) else availableHeight)
         in Inr \<lparr>rect_x = Num (m + (availableWidth - drawWidth) / 2),
                   rect_y = Num (m + (availableHeight - drawHeight) / 2),
                   rect_width = Num drawWidth, rect_height = Num drawHeight\<rparr>)"
    if "0 < iw \<and> 0 < ih \<and> ph - 2 * m \<noteq> 0" for iw ih pw ph m
    using that computeFit_exact_finite [of iw ih ph m pw] by (simp add: Let_def)
  have doubles: "computeFit (Num 200) (Num 100) (Num 600) (Num 800) (Num 20) =
        Inr \<lparr>rect_x = Num 20, rect_y = Num 260, rect_width = Num 560, rect_height = Num 280\<rparr>"
    by code_simp
  have exact: "computeFit_exact (Num 200) (Num 100) (Num 600) (Num 800) (Num 20) =
        Inr \<lparr>rect_x = Num 20, rect_y = Num 260, rect_width = Num 560, rect_height = Num 280\<rparr>"
    by (simp add: computeFit_exact_def pageFit_def js_sub_def Let_def)
  from general doubles exact computeFit_unfold show ?thesis by blast
qed

theorem contain_fit_witness:
  "computeFit_exact (Num 100) (Num 400) (Num 600) (Num 800) (Num 20) =
     Inr \<lparr>rect_x = Num 205, rect_y = Num 20, rect_width = Num 190, rect_height = Num 760\<rparr>"
proof -
  have "(0::rat) < 100 \<and> (0::rat) < 400 \<and> (800::rat) - 2 * 20 \<noteq> 0" by simp
  from contain_fit [THEN conjunct1, rule_format, OF this] show ?thesis
    by (simp add: Let_def)
qed

subsection \<open>Invariants of the rectangle\<close>




subsection \<open>An image with the aspect ratio of the available area\<close>

text \<open>
  Claim C9 says that an image with exactly the aspect ratio of the available area gets
  exactly the available area.  On the doubles of the source the width is the rounded
  product \<open>availableHeight * imageAspectRatio\<close>: a 3 by 17 image on a 70 by 210 page has
  the aspect ratio of the 30 by 170 available area and is drawn 30.000000000000004 wide.
\<close>

theorem equal_aspect_width_rounded:
  "(3 / 17 :: rat) = (70 - 2 * 20) / (210 - 2 * 20)
   \<and> computeFit (Num 3) (Num 17) (Num 70) (Num 210) (Num 20) =
       Inr \<lparr>rect_x = Num 20, rect_y = Num 20,
             rect_width = Num (8444249301319681 / 281474976710656), rect_height = Num 170\<rparr>
   \<and> (8444249301319681 / 281474976710656 :: rat) \<noteq> 70 - 2 * 20"
proof -
  have "computeFit (Num 3) (Num 17) (Num 70) (Num 210) (Num 20) =
       Inr \<lparr>rect_x = Num 20, rect_y = Num 20,
             rect_width = Num (8444249301319681 / 281474976710656), rect_height = Num 170\<rparr>"
    by code_simp
  then show ?thesis by simp
qed

text \<open>
  Claim C9 as amended.  For an image with positive dimensions whose aspect ratio equals
  that of a positive available area exactly: over exact arithmetic the rectangle is the
  available area, with both offsets equal to the margin.  On the doubles of the source,
  when the margin is a double, the height is exactly the available height and \<open>y\<close> is
  exactly the margin, while the width is the rounded product of the available height and
  the rounded image aspect ratio, and \<open>x\<close> is the offset computed from that width.
\<close>

theorem equal_aspect_fills_area:
  assumes "0 < iw" "0 < ih"
  shows "(0 < pw - 2 * m \<and> 0 < ph - 2 * m \<and> iw / ih = (pw - 2 * m) / (ph - 2 * m) \<longrightarrow>
           computeFit_exact (Num iw) (Num ih) (Num pw) (Num ph) (Num m) =
             Inr \<lparr>rect_x = Num m, rect_y = Num m,
                   rect_width = Num (pw - 2 * m), rect_height = Num (ph - 2 * m)\<rparr>)
       \<and> (\<forall>a b. binary64 m = Num m
              \<and> js_sub binary64 (Num pw) (js_mul binary64 (Num 2) (Num m)) = Num a
              \<and> js_sub binary64 (Num ph) (js_mul binary64 (Num 2) (Num m)) = Num b
              \<and> 0 < a \<and> 0 < b \<and> iw / ih = a / b \<longrightarrow>
            computeFit (Num iw) (Num ih) (Num pw) (Num ph) (Num m) =
              Inr \<lparr>rect_x = js_add binary64 (Num m)
                        (js_div binary64
                           (js_sub binary64 (Num a)
                              (js_mul binary64 (Num b) (binary64 (iw / ih))))
                           (Num 2)),
                    rect_y = Num m,
                    rect_width = js_mul binary64 (Num b) (binary64 (iw / ih)),
                    rect_height = Num b\<rparr>)"
proof -
  have exact: "computeFit_exact (Num iw) (Num ih) (Num pw) (Num ph) (Num m) =
             Inr \<lparr>rect_x = Num m, rect_y = Num m,
                   rect_width = Num (pw - 2 * m), rect_height = Num (ph - 2 * m)\<rparr>"
    if "0 < pw - 2 * m \<and> 0 < ph - 2 * m \<and> iw / ih = (pw - 2 * m) / (ph - 2 * m)"
    using assms that computeFit_exact_finite [of iw ih ph m pw] by simp
  have doubles: "computeFit (Num iw) (Num ih) (Num pw) (Num ph) (Num m) =
              Inr \<lparr>rect_x = js_add binary64 (Num m)
                        (js_div binary64
                           (js_sub binary64 (Num a)
                              (js_mul binary64 (Num b) (binary64 (iw / ih))))
                           (Num 2)),
                    rect_y = Num m,
                    rect_width = js_mul binary64 (Num b) (binary64 (iw / ih)),
                    rect_height = Num b\<rparr>"
    if "binary64 m = Num m
        \<and> js_sub binary64 (Num pw) (js_mul binary64 (Num 2) (Num m)) = Num a
        \<and> js_sub binary64 (Num ph) (js_mul binary64 (Num 2) (Num m)) = Num b
        \<and> 0 < a \<and> 0 < b \<and> iw / ih = a / b" for a b
    using that assms by (intro equal_aspect_doubles) simp_all
  from exact doubles show ?thesis by blast
qed

theorem equal_aspect_fills_area_witness:
  "computeFit_exact (Num 3) (Num 17) (Num 70) (Num 210) (Num 20) =
     Inr \<lparr>rect_x = Num 20, rect_y = Num 20, rect_width = Num 30, rect_height = Num 170\<rparr>
   \<and> rect_y (projr (computeFit (Num 3) (Num 17) (Num 70) (Num 210) (Num 20))) = Num 20
   \<and> rect_height (projr (computeFit (Num 3) (Num 17) (Num 70) (Num 210) (Num 20))) = Num 170"
proof -
  have h: "(0::rat) < 3" "(0::rat) < 17" by simp_all
  note main = equal_aspect_fills_area [OF h, of 70 20 210]
  have e: "(0::rat) < 70 - 2 * 20 \<and> (0::rat) < 210 - 2 * 20
      \<and> (3::rat) / 17 = (70 - 2 * 20) / (210 - 2 * 20)" by simp
  have d: "binary64 20 = Num 20
      \<and> js_sub binary64 (Num 70) (js_mul binary64 (Num 2) (Num 20)) = Num 30
      \<and> js_sub binary64 (Num 210) (js_mul binary64 (Num 2) (Num 20)) = Num 170"
    by code_simp
  have d': "binary64 20 = Num 20
      \<and> js_sub binary64 (Num 70) (js_mul binary64 (Num 2) (Num 20)) = Num 30
      \<and> js_sub binary64 (Num 210) (js_mul binary64 (Num 2) (Num 20)) = Num 170
      \<and> (0::rat) < 30 \<and> (0::rat) < 170 \<and> (3::rat) / 17 = 30 / 170"
    using d by simp
  from main [THEN conjunct1, rule_format, OF e]
  have 1: "computeFit_exact (Num 3) (Num 17) (Num 70) (Num 210) (Num 20) =
     Inr \<lparr>rect_x = Num 20, rect_y = Num 20, rect_width = Num 30, rect_height = Num 170\<rparr>"
    by simp
  from main [THEN conjunct2, rule_format, OF d']
  have 2: "rect_y (projr (computeFit (Num 3) (Num 17) (Num 70) (Num 210) (Num 20))) = Num 20
    \<and> rect_height (projr (computeFit (Num 3) (Num 17) (Num 70) (Num 210) (Num 20))) = Num 170"
    by simp
  from 1 2 show ?thesis by simp
qed

subsection \<open>A margin that leaves no available area\<close>

text \<open>
  Claim C4 says that the fit fails with \<open>MarginTooLarge\<close> whenever
  \<open>pageWidth - 2 * margin \<le> 0\<close> or \<open>pageHeight - 2 * margin \<le> 0\<close>.  The source has no
  such check.  On a page 30 points wide, with the margin 20 of the source, the available
  width is \<open>-10\<close> and a rectangle of width \<open>-10\<close> and height \<open>-5\<close> is handed to
  \<open>drawImage\<close>.
\<close>

theorem margin_too_large_not_raised:
  "(30::rat) - 2 * 20 \<le> 0
   \<and> convertImagesToPdf_fit (Num 200) (Num 100) (Num 30) (Num 800) \<noteq> Inl MarginTooLarge
   \<and> convertImagesToPdf_fit (Num 200) (Num 100) (Num 30) (Num 800) =
       Inr \<lparr>rect_x = Num 20, rect_y = Num (805 / 2), rect_width = Num (- 10),
             rect_height = Num (- 5)\<rparr>"
proof -
  have "convertImagesToPdf_fit (Num 200) (Num 100) (Num 30) (Num 800) =
       Inr \<lparr>rect_x = Num 20, rect_y = Num (805 / 2), rect_width = Num (- 10),
             rect_height = Num (- 5)\<rparr>"
    by code_simp
  then show ?thesis by simp
qed

text \<open>
  Claim C4 as amended.  For all image dimensions, page dimensions and margins, also when
  the margin leaves no available area, the fit does not fail with \<open>MarginTooLarge\<close>: it
  has no failing branch and always returns a rectangle.
\<close>

theorem fit_always_returns_rectangle:
  "computeFit imageWidth imageHeight pageWidth pageHeight margin \<noteq> Inl MarginTooLarge
   \<and> (\<exists>r. computeFit imageWidth imageHeight pageWidth pageHeight margin = Inr r)
   \<and> convertImagesToPdf_fit imageWidth imageHeight pageWidth pageHeight \<noteq> Inl MarginTooLarge
   \<and> (\<exists>r. convertImagesToPdf_fit imageWidth imageHeight pageWidth pageHeight = Inr r)"
  by (simp add: convertImagesToPdf_fit_def computeFit_unfold Let_def)

section \<open>Properties of the page-number text\<close>

lemma digit_char_is_digit: "d < 10 \<Longrightarrow> is_digit (digit_char d)"
proof -
  assume d: "d < 10"
  have tab: "map digit_char [0 ..< 10] = ''0123456789''" by code_simp
  from d have "digit_char d = map digit_char [0 ..< 10] ! d" by simp
  also from d have "\<dots> \<in> set (map digit_char [0 ..< 10])"
    by (intro nth_mem) simp
  finally show ?thesis unfolding tab is_digit_def .
qed

lemma toString_digits: "toString n \<noteq> [] \<and> (\<forall>c \<in> set (toString n). is_digit c)"
proof (induction n rule: toString.induct)
  case (1 n)
  show ?case
  proof (cases "n < 10")
    case True
    then show ?thesis by (simp add: toString.simps [of n] digit_char_is_digit)
  next
    case False
    with 1 show ?thesis by (simp add: toString.simps [of n] digit_char_is_digit)
  qed
qed

lemma is_digit_not_placeholder:
  "is_digit c \<Longrightarrow> c \<noteq> CHR ''%'' \<and> c \<noteq> CHR ''p'' \<and> c \<noteq> CHR ''t''"
  by (auto simp: is_digit_def)

lemma sublist_pair_Cons:
  "sublist [u, v] (y # ys) \<longleftrightarrow> (y = u \<and> ys \<noteq> [] \<and> hd ys = v) \<or> sublist [u, v] ys"
  by (cases ys) (auto simp: sublist_Cons_right)

lemma sublist_pair_append:
  "sublist [u, v] (ys @ zs) \<longleftrightarrow>
     sublist [u, v] ys \<or> sublist [u, v] zs \<or> (ys \<noteq> [] \<and> zs \<noteq> [] \<and> last ys = u \<and> hd zs = v)"
proof (induction ys)
  case Nil
  then show ?case by simp
next
  case (Cons y ys)
  show ?case
    unfolding append_Cons sublist_pair_Cons Cons.IH
    by (cases ys; cases zs) auto
qed

lemma replace_first_absent: "\<not> sublist pat s \<Longrightarrow> replace_first pat rep s = s"
proof (induction s)
  case Nil
  then show ?case by (cases pat) simp_all
next
  case (Cons c cs)
  then show ?case by (simp add: sublist_Cons_right)
qed

lemma replace_first_at:
  assumes "u \<noteq> v" "\<not> sublist [u, v] a"
  shows "replace_first [u, v] rep (a @ [u, v] @ b) = a @ rep @ b"
  using assms(2)
proof (induction a)
  case Nil
  then show ?case by simp
next
  case (Cons x a)
  from Cons.prems have nx: "\<not> (x = u \<and> a \<noteq> [] \<and> hd a = v)" and na: "\<not> sublist [u, v] a"
    by (simp_all add: sublist_pair_Cons)
  have np: "\<not> prefix [u, v] (x # (a @ [u, v] @ b))"
    using nx assms(1) by (cases a) auto
  have "replace_first [u, v] rep ((x # a) @ [u, v] @ b) =
          x # replace_first [u, v] rep (a @ [u, v] @ b)"
    using np by (simp only: append_Cons replace_first.simps if_False)
  with Cons.IH [OF na] show ?case by simp
qed

lemma no_placeholder_in_digits:
  assumes "ds \<noteq> []" "\<forall>c \<in> set ds. is_digit c" "w = CHR ''p'' \<or> w = CHR ''t''"
  shows "sublist [CHR ''%'', w] (a @ ds @ b) \<longleftrightarrow> sublist [CHR ''%'', w] a \<or> sublist [CHR ''%'', w] b"
proof -
  have hd: "is_digit (hd ds)" and last: "is_digit (last ds)" using assms(1,2) by simp_all
  have nd: "\<not> sublist [CHR ''%'', w] ds"
  proof
    assume "sublist [CHR ''%'', w] ds"
    then have "CHR ''%'' \<in> set ds" by (auto simp: sublist_def)
    with assms(2) show False using is_digit_not_placeholder by blast
  qed
  have "hd ds \<noteq> w" "last ds \<noteq> CHR ''%''"
    using hd last assms(3) is_digit_not_placeholder by blast+
  with nd assms(1) show ?thesis
    by (auto simp: sublist_pair_append)
qed


lemma sublist_pair_parts:
  "\<not> sublist [u, v] (a @ m @ b) \<Longrightarrow> \<not> sublist [u, v] a \<and> \<not> sublist [u, v] b"
  by (auto simp: sublist_pair_append)

lemma pageNumStr_p_then_t:
  assumes "\<not> sublist ''%p'' a" "\<not> sublist ''%t'' (a @ ''%p'' @ b)"
  shows "pageNumStr (a @ ''%p'' @ b @ ''%t'' @ c) i totalPages =
           a @ toString (i + 1) @ b @ toString totalPages @ c"
proof -
  let ?P = "toString (i + 1)" and ?T = "toString totalPages"
  have 1: "replace_first ''%p'' ?P (a @ ''%p'' @ (b @ ''%t'' @ c)) = a @ ?P @ (b @ ''%t'' @ c)"
    using assms(1) by (intro replace_first_at) simp_all
  from sublist_pair_parts [OF assms(2)]
  have "\<not> sublist ''%t'' (a @ ?P @ b)"
    using no_placeholder_in_digits [of ?P "CHR ''t''" a b] toString_digits [of "i + 1"] by simp
  then have 2: "replace_first ''%t'' ?T ((a @ ?P @ b) @ ''%t'' @ c) = (a @ ?P @ b) @ ?T @ c"
    by (intro replace_first_at) simp_all
  from 1 2 show ?thesis by (simp add: pageNumStr_def)
qed

lemma pageNumStr_t_then_p:
  assumes "\<not> sublist ''%t'' a" "\<not> sublist ''%p'' (a @ ''%t'' @ b)"
  shows "pageNumStr (a @ ''%t'' @ b @ ''%p'' @ c) i totalPages =
           a @ toString totalPages @ b @ toString (i + 1) @ c"
proof -
  let ?P = "toString (i + 1)" and ?T = "toString totalPages"
  have 1: "replace_first ''%p'' ?P ((a @ ''%t'' @ b) @ ''%p'' @ c) = (a @ ''%t'' @ b) @ ?P @ c"
    using assms(2) by (intro replace_first_at) simp_all
  have 2: "replace_first ''%t'' ?T (a @ ''%t'' @ (b @ ?P @ c)) = a @ ?T @ (b @ ?P @ c)"
    using assms(1) by (intro replace_first_at) simp_all
  from 1 2 show ?thesis by (simp add: pageNumStr_def)
qed

lemma pageNumStr_only_p:
  assumes "\<not> sublist ''%p'' a" "\<not> sublist ''%t'' (a @ ''%p'' @ b)"
  shows "pageNumStr (a @ ''%p'' @ b) i totalPages = a @ toString (i + 1) @ b"
proof -
  let ?P = "toString (i + 1)"
  have 1: "replace_first ''%p'' ?P (a @ ''%p'' @ b) = a @ ?P @ b"
    using assms(1) by (intro replace_first_at) simp_all
  from sublist_pair_parts [OF assms(2)]
  have "\<not> sublist ''%t'' (a @ ?P @ b)"
    using no_placeholder_in_digits [of ?P "CHR ''t''" a b] toString_digits [of "i + 1"] by simp
  then have "replace_first ''%t'' (toString totalPages) (a @ ?P @ b) = a @ ?P @ b"
    by (rule replace_first_absent)
  with 1 show ?thesis by (simp add: pageNumStr_def)
qed

lemma pageNumStr_only_t:
  assumes "\<not> sublist ''%t'' a" "\<not> sublist ''%p'' (a @ ''%t'' @ b)"
  shows "pageNumStr (a @ ''%t'' @ b) i totalPages = a @ toString totalPages @ b"
proof -
  have 1: "replace_first ''%p'' (toString (i + 1)) (a @ ''%t'' @ b) = a @ ''%t'' @ b"
    using assms(2) by (rule replace_first_absent)
  have 2: "replace_first ''%t'' (toString totalPages) (a @ ''%t'' @ b) = a @ toString totalPages @ b"
    using assms(1) by (intro replace_first_at) simp_all
  from 1 2 show ?thesis by (simp add: pageNumStr_def)
qed

lemma pageNumStr_none:
  assumes "\<not> sublist ''%p'' fmt" "\<not> sublist ''%t'' fmt"
  shows "pageNumStr fmt i totalPages = fmt"
  using assms by (simp add: pageNumStr_def replace_first_absent)

lemma first_occurrence:
  assumes "pat \<noteq> []"
  shows "sublist pat s \<Longrightarrow> \<exists>a b. s = a @ pat @ b \<and> \<not> sublist pat a"
proof (induction s)
  case Nil
  with assms show ?case by simp
next
  case (Cons x s)
  show ?case
  proof (cases "prefix pat (x # s)")
    case True
    then obtain b where "x # s = pat @ b" by (auto simp: prefix_def)
    then have "x # s = [] @ pat @ b \<and> \<not> sublist pat []" using assms by simp
    then show ?thesis by blast
  next
    case False
    with Cons.prems have "sublist pat s" by (simp add: sublist_Cons_right)
    with Cons.IH obtain a b where s: "s = a @ pat @ b" and a: "\<not> sublist pat a" by blast
    have "\<not> prefix pat (x # a)"
    proof
      assume "prefix pat (x # a)"
      then have "prefix pat ((x # a) @ pat @ b)" by (rule prefix_prefix)
      with False s show False by simp
    qed
    with a have "\<not> sublist pat (x # a)" by (simp add: sublist_Cons_right)
    moreover have "x # s = (x # a) @ pat @ b" using s by simp
    ultimately show ?thesis by blast
  qed
qed

lemma two_placeholders_order:
  assumes eq: "a @ [u, v] @ b = a' @ [u, w] @ b'" and vw: "v \<noteq> w" "u \<noteq> v" "u \<noteq> w"
  shows "(\<exists>m. a' = a @ [u, v] @ m \<and> b = m @ [u, w] @ b')
       \<or> (\<exists>m. a = a' @ [u, w] @ m \<and> b' = m @ [u, v] @ b)"
proof -
  from eq obtain us where
    "(a = a' @ us \<and> us @ [u, v] @ b = [u, w] @ b') \<or> (a @ us = a' \<and> [u, v] @ b = us @ [u, w] @ b')"
    by (auto simp: append_eq_append_conv2)
  then show ?thesis
  proof
    assume h: "a = a' @ us \<and> us @ [u, v] @ b = [u, w] @ b'"
    show ?thesis
    proof (cases us)
      case Nil
      with h vw show ?thesis by simp
    next
      case (Cons x us1)
      show ?thesis
      proof (cases us1)
        case Nil
        with Cons h vw show ?thesis by simp
      next
        case (Cons y us2)
        with \<open>us = x # us1\<close> h have "a = a' @ [u, w] @ us2 \<and> b' = us2 @ [u, v] @ b" by simp
        then show ?thesis by blast
      qed
    qed
  next
    assume h: "a @ us = a' \<and> [u, v] @ b = us @ [u, w] @ b'"
    show ?thesis
    proof (cases us)
      case Nil
      with h vw show ?thesis by simp
    next
      case (Cons x us1)
      show ?thesis
      proof (cases us1)
        case Nil
        with Cons h vw show ?thesis by simp
      next
        case (Cons y us2)
        with \<open>us = x # us1\<close> h have "a' = a @ [u, v] @ us2 \<and> b = us2 @ [u, w] @ b'" by auto
        then show ?thesis by blast
      qed
    qed
  qed
qed

lemma placeholder_shapes:
  "(\<exists>a b c. fmt = a @ ''%p'' @ b @ ''%t'' @ c
        \<and> \<not> sublist ''%p'' a \<and> \<not> sublist ''%t'' (a @ ''%p'' @ b))
   \<or> (\<exists>a b c. fmt = a @ ''%t'' @ b @ ''%p'' @ c
        \<and> \<not> sublist ''%t'' a \<and> \<not> sublist ''%p'' (a @ ''%t'' @ b))
   \<or> (\<exists>a b. fmt = a @ ''%p'' @ b
        \<and> \<not> sublist ''%p'' a \<and> \<not> sublist ''%t'' (a @ ''%p'' @ b))
   \<or> (\<exists>a b. fmt = a @ ''%t'' @ b
        \<and> \<not> sublist ''%t'' a \<and> \<not> sublist ''%p'' (a @ ''%t'' @ b))
   \<or> (\<not> sublist ''%p'' fmt \<and> \<not> sublist ''%t'' fmt)"
proof (cases "sublist ''%p'' fmt")
  case p: True
  then obtain a b where ab: "fmt = a @ ''%p'' @ b" "\<not> sublist ''%p'' a"
    using first_occurrence [of "''%p''" fmt] by auto
  show ?thesis
  proof (cases "sublist ''%t'' fmt")
    case True
    then obtain a' b' where ab': "fmt = a' @ ''%t'' @ b'" "\<not> sublist ''%t'' a'"
      using first_occurrence [of "''%t''" fmt] by auto
    from ab(1) ab'(1) have "a @ [CHR ''%'', CHR ''p''] @ b = a' @ [CHR ''%'', CHR ''t''] @ b'"
      by simp
    from two_placeholders_order [OF this]
    have "(\<exists>m. a' = a @ ''%p'' @ m \<and> b = m @ ''%t'' @ b')
       \<or> (\<exists>m. a = a' @ ''%t'' @ m \<and> b' = m @ ''%p'' @ b)" by simp
    then show ?thesis
    proof
      assume "\<exists>m. a' = a @ ''%p'' @ m \<and> b = m @ ''%t'' @ b'"
      then obtain m where m: "a' = a @ ''%p'' @ m" "b = m @ ''%t'' @ b'" by blast
      have "fmt = a @ ''%p'' @ m @ ''%t'' @ b' \<and> \<not> sublist ''%p'' a
            \<and> \<not> sublist ''%t'' (a @ ''%p'' @ m)"
        using ab m ab'(2) by simp
      then show ?thesis by blast
    next
      assume "\<exists>m. a = a' @ ''%t'' @ m \<and> b' = m @ ''%p'' @ b"
      then obtain m where m: "a = a' @ ''%t'' @ m" "b' = m @ ''%p'' @ b" by blast
      have "fmt = a' @ ''%t'' @ m @ ''%p'' @ b \<and> \<not> sublist ''%t'' a'
            \<and> \<not> sublist ''%p'' (a' @ ''%t'' @ m)"
        using ab' m ab(2) by simp
      then show ?thesis by blast
    qed
  next
    case False
    with ab have "fmt = a @ ''%p'' @ b \<and> \<not> sublist ''%p'' a \<and> \<not> sublist ''%t'' (a @ ''%p'' @ b)"
      by simp
    then show ?thesis by blast
  qed
next
  case np: False
  show ?thesis
  proof (cases "sublist ''%t'' fmt")
    case True
    then obtain a b where ab: "fmt = a @ ''%t'' @ b" "\<not> sublist ''%t'' a"
      using first_occurrence [of "''%t''" fmt] by auto
    with np have "fmt = a @ ''%t'' @ b \<and> \<not> sublist ''%t'' a \<and> \<not> sublist ''%p'' (a @ ''%t'' @ b)"
      by simp
    then show ?thesis by blast
  next
    case False
    with np show ?thesis by blast
  qed
qed

subsection \<open>Only the first placeholders are substituted\<close>

text \<open>
  Claim C10.  For every format and every page, only the first occurrence of \<open>%p\<close> and
  the first occurrence of \<open>%t\<close> are substituted, by the 1-based page number and by the
  page count; the text around them, with any further \<open>%p\<close> or \<open>%t\<close>, is drawn as it
  is.  The five cases are: \<open>%p\<close> first and \<open>%t\<close> after it, \<open>%t\<close> first and \<open>%p\<close>
  after it, only \<open>%p\<close>, only \<open>%t\<close>, and neither.  In each case the texts \<open>a\<close> and
  \<open>b\<close> hold no earlier occurrence, and the last text shown is arbitrary.  Every format
  has one of the five shapes.
\<close>

theorem only_first_placeholders_replaced:
  "(\<forall>a b c. \<not> sublist ''%p'' a \<and> \<not> sublist ''%t'' (a @ ''%p'' @ b) \<longrightarrow>
       pageNumStr (a @ ''%p'' @ b @ ''%t'' @ c) i totalPages =
         a @ toString (i + 1) @ b @ toString totalPages @ c)
   \<and> (\<forall>a b c. \<not> sublist ''%t'' a \<and> \<not> sublist ''%p'' (a @ ''%t'' @ b) \<longrightarrow>
       pageNumStr (a @ ''%t'' @ b @ ''%p'' @ c) i totalPages =
         a @ toString totalPages @ b @ toString (i + 1) @ c)
   \<and> (\<forall>a b. \<not> sublist ''%p'' a \<and> \<not> sublist ''%t'' (a @ ''%p'' @ b) \<longrightarrow>
       pageNumStr (a @ ''%p'' @ b) i totalPages = a @ toString (i + 1) @ b)
   \<and> (\<forall>a b. \<not> sublist ''%t'' a \<and> \<not> sublist ''%p'' (a @ ''%t'' @ b) \<longrightarrow>
       pageNumStr (a @ ''%t'' @ b) i totalPages = a @ toString totalPages @ b)
   \<and> (\<forall>fmt. \<not> sublist ''%p'' fmt \<and> \<not> sublist ''%t'' fmt \<longrightarrow> pageNumStr fmt i totalPages = fmt)
   \<and> (\<forall>fmt.
         (\<exists>a b c. fmt = a @ ''%p'' @ b @ ''%t'' @ c
              \<and> \<not> sublist ''%p'' a \<and> \<not> sublist ''%t'' (a @ ''%p'' @ b))
         \<or> (\<exists>a b c. fmt = a @ ''%t'' @ b @ ''%p'' @ c
              \<and> \<not> sublist ''%t'' a \<and> \<not> sublist ''%p'' (a @ ''%t'' @ b))
         \<or> (\<exists>a b. fmt = a @ ''%p'' @ b
              \<and> \<not> sublist ''%p'' a \<and> \<not> sublist ''%t'' (a @ ''%p'' @ b))
         \<or> (\<exists>a b. fmt = a @ ''%t'' @ b
              \<and> \<not> sublist ''%t'' a \<and> \<not> sublist ''%p'' (a @ ''%t'' @ b))
         \<or> (\<not> sublist ''%p'' fmt \<and> \<not> sublist ''%t'' fmt))"
proof (intro conjI allI impI)
  fix a b c
  assume "\<not> sublist ''%p'' a \<and> \<not> sublist ''%t'' (a @ ''%p'' @ b)"
  then show "pageNumStr (a @ ''%p'' @ b @ ''%t'' @ c) i totalPages =
         a @ toString (i + 1) @ b @ toString totalPages @ c"
    by (intro pageNumStr_p_then_t) simp_all
next
  fix a b c
  assume "\<not> sublist ''%t'' a \<and> \<not> sublist ''%p'' (a @ ''%t'' @ b)"
  then show "pageNumStr (a @ ''%t'' @ b @ ''%p'' @ c) i totalPages =
         a @ toString totalPages @ b @ toString (i + 1) @ c"
    by (intro pageNumStr_t_then_p) simp_all
next
  fix a b
  assume "\<not> sublist ''%p'' a \<and> \<not> sublist ''%t'' (a @ ''%p'' @ b)"
  then show "pageNumStr (a @ ''%p'' @ b) i totalPages = a @ toString (i + 1) @ b"
    by (intro pageNumStr_only_p) simp_all
next
  fix a b
  assume "\<not> sublist ''%t'' a \<and> \<not> sublist ''%p'' (a @ ''%t'' @ b)"
  then show "pageNumStr (a @ ''%t'' @ b) i totalPages = a @ toString totalPages @ b"
    by (intro pageNumStr_only_t) simp_all
next
  fix fmt
  assume "\<not> sublist ''%p'' fmt \<and> \<not> sublist ''%t'' fmt"
  then show "pageNumStr fmt i totalPages = fmt"
    by (intro pageNumStr_none) simp_all
next
  fix fmt
  show "(\<exists>a b c. fmt = a @ ''%p'' @ b @ ''%t'' @ c
              \<and> \<not> sublist ''%p'' a \<and> \<not> sublist ''%t'' (a @ ''%p'' @ b))
         \<or> (\<exists>a b c. fmt = a @ ''%t'' @ b @ ''%p'' @ c
              \<and> \<not> sublist ''%t'' a \<and> \<not> sublist ''%p'' (a @ ''%t'' @ b))
         \<or> (\<exists>a b. fmt = a @ ''%p'' @ b
              \<and> \<not> sublist ''%p'' a \<and> \<not> sublist ''%t'' (a @ ''%p'' @ b))
         \<or> (\<exists>a b. fmt = a @ ''%t'' @ b
              \<and> \<not> sublist ''%t'' a \<and> \<not> sublist ''%p'' (a @ ''%t'' @ b))
         \<or> (\<not> sublist ''%p'' fmt \<and> \<not> sublist ''%t'' fmt)"
    by (rule placeholder_shapes)
qed

theorem only_first_placeholders_replaced_witness:
  "pageNumStr ''Page %p of %t (%p/%t)'' 2 12 = ''Page 3 of 12 (%p/%t)''
   \<and> pageNumStr ''%t pages, this is %p, not %t'' 2 12 = ''12 pages, this is 3, not %t''
   \<and> pageNumStr ''- %p - %p -'' 2 12 = ''- 3 - %p -''
   \<and> pageNumStr ''of %t%t'' 2 12 = ''of 12%t''
   \<and> pageNumStr ''100% plain'' 2 12 = ''100% plain''"
proof -
  note main = only_first_placeholders_replaced [of 2 12]
  have n: "toString 3 = ''3''" "toString 12 = ''12''" by code_simp+
  have h1: "\<not> sublist ''%p'' ''Page '' \<and> \<not> sublist ''%t'' (''Page '' @ ''%p'' @ '' of '')"
    by code_simp
  have 1: "pageNumStr (''Page '' @ ''%p'' @ '' of '' @ ''%t'' @ '' (%p/%t)'') 2 12 =
          ''Page '' @ toString (2 + 1) @ '' of '' @ toString 12 @ '' (%p/%t)''"
    by (rule main [THEN conjunct1, rule_format, OF h1])
  have h2: "\<not> sublist ''%t'' [] \<and> \<not> sublist ''%p'' ([] @ ''%t'' @ '' pages, this is '')"
    by code_simp
  have 2: "pageNumStr ([] @ ''%t'' @ '' pages, this is '' @ ''%p'' @ '', not %t'') 2 12 =
          [] @ toString 12 @ '' pages, this is '' @ toString (2 + 1) @ '', not %t''"
    by (rule main [THEN conjunct2, THEN conjunct1, rule_format, OF h2])
  have h3: "\<not> sublist ''%p'' ''- '' \<and> \<not> sublist ''%t'' (''- '' @ ''%p'' @ '' - %p -'')"
    by code_simp
  have 3: "pageNumStr (''- '' @ ''%p'' @ '' - %p -'') 2 12 = ''- '' @ toString (2 + 1) @ '' - %p -''"
    by (rule main [THEN conjunct2, THEN conjunct2, THEN conjunct1, rule_format, OF h3])
  have h4: "\<not> sublist ''%t'' ''of '' \<and> \<not> sublist ''%p'' (''of '' @ ''%t'' @ ''%t'')"
    by code_simp
  have 4: "pageNumStr (''of '' @ ''%t'' @ ''%t'') 2 12 = ''of '' @ toString 12 @ ''%t''"
    by (rule main [THEN conjunct2, THEN conjunct2, THEN conjunct2, THEN conjunct1, rule_format,
          OF h4])
  have h5: "\<not> sublist ''%p'' ''100% plain'' \<and> \<not> sublist ''%t'' ''100% plain''"
    by code_simp
  have 5: "pageNumStr ''100% plain'' 2 12 = ''100% plain''"
    by (rule main [THEN conjunct2, THEN conjunct2, THEN conjunct2, THEN conjunct2, THEN conjunct1,
          rule_format, OF h5])
  from 1 2 3 4 5 show ?thesis by (simp add: n)
qed

end
